theory Spec2Isabelle
  imports Complex_Main "HOL-Library.Word"
begin

unbundle bit_operations_syntax

section \<open>Elastic hashing: the data model of \<open>main.c\<close>\<close>

text \<open>
  \<open>size_t\<close> is the 64-bit unsigned integer of an LP64 platform: arithmetic wraps
  around, comparisons are unsigned. A \<open>double\<close> is a real number or one of the
  three values of IEEE arithmetic that are not numbers: on the finite values the
  arithmetic of the model is exact (rounding is not represented), and the divisions by
  zero of the program give the infinities and the NaN that IEEE arithmetic gives. The
  slack \<open>delta\<close> is a finite number, a \<open>real\<close>. The concrete runs below
  use the slacks \<open>1/2\<close> and \<open>1/4\<close> with small sizes, on which double
  arithmetic is exact, and \<open>0.1\<close>, with values far from the thresholds they are
  compared with.
\<close>

type_synonym size_t = "64 word"

datatype double = Finite real | NaN | PlusInf | MinusInf

text \<open>The comparisons \<open>x > y\<close> and \<open>x <= y\<close> of a double with a finite number:
  both are false of a NaN.\<close>

fun double_gt :: "double \<Rightarrow> real \<Rightarrow> bool" where
  "double_gt (Finite x) y \<longleftrightarrow> y < x"
| "double_gt PlusInf y \<longleftrightarrow> True"
| "double_gt MinusInf y \<longleftrightarrow> False"
| "double_gt NaN y \<longleftrightarrow> False"

fun double_le :: "double \<Rightarrow> real \<Rightarrow> bool" where
  "double_le (Finite x) y \<longleftrightarrow> x \<le> y"
| "double_le PlusInf y \<longleftrightarrow> False"
| "double_le MinusInf y \<longleftrightarrow> True"
| "double_le NaN y \<longleftrightarrow> False"

record SubArray =
  start :: size_t
  size_sub :: size_t
  filled_slots :: size_t
  epsilon :: double

record Batch =
  start_index :: size_t
  size_batch :: size_t
  current :: size_t

text \<open>
  \<open>table\<close> is the block of \<open>n\<close> slots and \<open>arrays\<close> the block of
  \<open>num_arrays\<close> sub-array descriptors; both are indexed by a \<open>size_t\<close>, and an
  access to \<open>table\<close> at an index that is not below \<open>n\<close> is the error
  \<open>OutOfBounds\<close> of the operations.
\<close>

record ElasticHash =
  table :: "size_t \<Rightarrow> size_t"
  n :: size_t
  delta :: real
  items :: size_t
  arrays :: "size_t \<Rightarrow> SubArray"
  num_arrays :: size_t
  current_batch :: Batch
  beta :: size_t

datatype error = DivByZero | OutOfBounds

text \<open>The casts between \<open>size_t\<close> and \<open>double\<close>; the cast to \<open>size_t\<close>
  truncates, and is defined in C for values in \<open>(-1, 2^64)\<close> only.\<close>

definition size_t_of_double :: "real \<Rightarrow> size_t" where
  "size_t_of_double x = word_of_nat (nat \<lfloor>x\<rfloor>)"

definition double_of_size_t :: "size_t \<Rightarrow> real" where
  "double_of_size_t w = real (unat w)"

text \<open>\<open>(size_t)log2(x)\<close> for a \<open>size_t\<close> \<open>x\<close>: the number of halvings that
  leave a positive value (lemma \<open>ilog2_floor_log\<close> relates it to the logarithm).\<close>

fun ilog2 :: "nat \<Rightarrow> nat" where
  "ilog2 k = (if k < 2 then 0 else Suc (ilog2 (k div 2)))"

definition log2_size_t :: "size_t \<Rightarrow> size_t" where
  "log2_size_t x = word_of_nat (ilog2 (unat x))"

section \<open>The injection \<open>phi\<close>\<close>

text \<open>The \<open>while (j > 0)\<close> loop of \<open>phi\<close>, on the pair \<open>(result, j)\<close>.\<close>

function phi_loop :: "size_t \<Rightarrow> size_t \<Rightarrow> size_t" where
  "phi_loop result j =
     (if 0 < j
      then phi_loop (push_bit 2 result OR push_bit 1 (j AND 1) OR 1) (drop_bit 1 j)
      else result)"
  by pat_completeness auto
termination
proof (relation "measure (\<lambda>(result, j). unat j)")
  show "wf (measure (\<lambda>(result, j :: size_t). unat j))" by simp
next
  fix result j :: size_t
  assume "0 < j"
  then have "unat j \<noteq> 0" by (simp add: unat_eq_0 word_neq_0_conv)
  then have "unat j div 2 < unat j" by simp
  then show "((push_bit 2 result OR push_bit 1 (j AND 1) OR 1, drop_bit 1 j), (result, j))
      \<in> measure (\<lambda>(result, j). unat j)"
    by (simp add: drop_bit_eq_div unat_div)
qed

definition phi :: "size_t \<Rightarrow> size_t \<Rightarrow> size_t" where
  "phi i j =
     (let result = phi_loop 1 j;
          result = push_bit 1 result
      in push_bit (unat (log2_size_t (i + 1))) result OR i)"

section \<open>Construction\<close>

text \<open>
  The loop of \<open>elastic_hash_init\<close> that sizes the sub-arrays. It returns the
  descriptors it writes, in order: the first one is written to \<open>arrays[i]\<close>, the next
  to \<open>arrays[i + 1]\<close>, and so on until the loop counter reaches \<open>num_arrays\<close> or
  the \<open>break\<close> is taken. \<open>ai % beta\<close> with \<open>beta = 0\<close> is a division by
  zero.
\<close>

function init_sub_arrays ::
  "size_t \<Rightarrow> size_t \<Rightarrow> size_t \<Rightarrow> size_t \<Rightarrow> size_t \<Rightarrow> error + SubArray list" where
  "init_sub_arrays num b i remaining st =
     (if i < num then
        (let ai = (remaining * 3) div 4;
             ai = (if ai < b then b else ai)
         in if b = 0 then Inl DivByZero
            else
              (let sz = ai - (ai mod b);
                   sa = \<lparr>start = st, size_sub = sz, filled_slots = 0, epsilon = Finite 1\<rparr>;
                   st' = st + sz;
                   remaining' = remaining - sz
               in if remaining' < b then Inr [sa]
                  else (case init_sub_arrays num b (i + 1) remaining' st' of
                          Inl e \<Rightarrow> Inl e
                        | Inr sas \<Rightarrow> Inr (sa # sas))))
      else Inr [])"
  by pat_completeness auto
termination
proof (relation "measure (\<lambda>(num, b, i, remaining, st). unat (num - i))")
  show "wf (measure (\<lambda>(num :: size_t, b :: size_t, i :: size_t, remaining :: size_t,
      st :: size_t). unat (num - i)))"
    by simp
next
  fix num b i remaining st xd xe :: size_t
  assume "i < num"
  then have "unat (num - (i + 1)) < unat (num - i)"
    by unat_arith
  then show "((num, b, i + 1, xe, xd), (num, b, i, remaining, st))
      \<in> measure (\<lambda>(num, b, i, remaining, st). unat (num - i))"
    by simp
qed

text \<open>
  \<open>beta_of\<close> is line 58 and \<open>num_arrays_of\<close> line 67 of \<open>main.c\<close>;
  \<open>sub_arrays_of\<close> is the sizing loop as \<open>elastic_hash_init\<close> runs it.
  \<open>elastic_hash_init n delta\<close> is modelled for a call whose three allocations succeed (the
  returns of \<open>NULL\<close> are not part of the model). \<open>calloc\<close> zeroes the table.
  \<open>malloc\<close> leaves the block of \<open>num_arrays\<close> descriptors as it finds it: its
  contents before the loop are the parameter \<open>heap\<close>, and the entries that the loop
  does not write keep them.
\<close>

definition beta_of :: "real \<Rightarrow> size_t" where
  "beta_of d = size_t_of_double (2 * log 2 (1 / d))"

definition num_arrays_of :: "real \<Rightarrow> size_t" where
  "num_arrays_of d = size_t_of_double (real_of_int \<lceil>4 * log 2 (1 / d) + 10\<rceil>)"

definition sub_arrays_of :: "size_t \<Rightarrow> real \<Rightarrow> error + SubArray list" where
  "sub_arrays_of cap d = init_sub_arrays (num_arrays_of d) (beta_of d) 0 cap 0"

definition elastic_hash_init ::
  "(size_t \<Rightarrow> SubArray) \<Rightarrow> size_t \<Rightarrow> real \<Rightarrow> error + ElasticHash" where
  "elastic_hash_init heap cap d =
     (case sub_arrays_of cap d of
        Inl e \<Rightarrow> Inl e
      | Inr sas \<Rightarrow>
          (let arrs = (\<lambda>i. if unat i < length sas then sas ! unat i else heap i)
           in Inr \<lparr>table = (\<lambda>_. 0), n = cap, delta = d, items = 0, arrays = arrs,
                   num_arrays = num_arrays_of d,
                   current_batch =
                     \<lparr>start_index = 0,
                      size_batch = size_t_of_double (0.75 * double_of_size_t (size_sub (arrs 0))),
                      current = 0\<rparr>,
                   beta = beta_of d\<rparr>))"

section \<open>The probe sequence and the probe budget\<close>

text \<open>\<open>hash % size\<close> with \<open>size = 0\<close> is a division by zero.\<close>

definition probe_sequence :: "ElasticHash \<Rightarrow> size_t \<Rightarrow> size_t \<Rightarrow> size_t \<Rightarrow> error + size_t" where
  "probe_sequence eh key i j =
     (let hash = phi i j;
          hash = hash XOR key
      in if size_sub (arrays eh i) = 0 then Inl DivByZero
         else Inr (start (arrays eh i) + (hash mod size_sub (arrays eh i))))"

text \<open>
  \<open>compute_f\<close>. For \<open>epsilon = 0\<close> the quotient \<open>1.0 / epsilon\<close> is
  \<open>+\<infinity>\<close>, so is the square of its logarithm, and \<open>fmin\<close> returns
  \<open>log_delta\<close>. For an infinite \<open>epsilon\<close> the quotient is zero, its logarithm
  \<open>-\<infinity>\<close> and the square \<open>+\<infinity>\<close> again. For a negative
  \<open>epsilon\<close> or a NaN the logarithm is a NaN, and \<open>fmin\<close> returns its other
  argument, which is \<open>log_delta\<close>.
\<close>

definition compute_f :: "double \<Rightarrow> real \<Rightarrow> size_t" where
  "compute_f eps d =
     (let log_delta = log 2 (1 / d)
      in case eps of
           Finite e \<Rightarrow>
             if e \<le> 0 then size_t_of_double (4 * log_delta)
             else (let log_eps = log 2 (1 / e)
                   in size_t_of_double (4 * min (log_eps * log_eps) log_delta))
         | _ \<Rightarrow> size_t_of_double (4 * log_delta))"

section \<open>Insertion\<close>

text \<open>
  Every operation returns \<open>Inl e\<close> where the C program divides an integer by
  zero or reads or writes the table out of bounds; otherwise \<open>Inr\<close> of what the C
  function returns, with the state after the call where the call changes it.
\<close>

text \<open>The three assignments that store a key: \<open>eh->table[pos] = key\<close>,
  \<open>current->filled_slots++\<close> and \<open>eh->items++\<close>.\<close>

definition store_key :: "ElasticHash \<Rightarrow> size_t \<Rightarrow> size_t \<Rightarrow> size_t \<Rightarrow> ElasticHash" where
  "store_key eh key i pos =
     eh\<lparr>table := (table eh)(pos := key),
        arrays := (arrays eh)(i := (arrays eh i)\<lparr>filled_slots := filled_slots (arrays eh i) + 1\<rparr>),
        items := items eh + 1\<rparr>"

text \<open>Case 1: the loop \<open>for (j = 0; j < f_eps; j++)\<close>, from \<open>j\<close> on. The
  result is the position of the first empty slot probed, if there is one.\<close>

function case1_probe ::
  "ElasticHash \<Rightarrow> size_t \<Rightarrow> size_t \<Rightarrow> size_t \<Rightarrow> size_t \<Rightarrow> error + size_t option" where
  "case1_probe eh key i f_eps j =
     (if j < f_eps then
        (case probe_sequence eh key i j of
           Inl e \<Rightarrow> Inl e
         | Inr pos \<Rightarrow>
             if n eh \<le> pos then Inl OutOfBounds
             else if table eh pos = 0 then Inr (Some pos)
             else case1_probe eh key i f_eps (j + 1))
      else Inr None)"
  by pat_completeness auto
termination
proof (relation "measure (\<lambda>(eh, key, i, f_eps, j). unat (f_eps - j))")
  show "wf (measure (\<lambda>(eh :: ElasticHash, key :: size_t, i :: size_t, f_eps :: size_t,
      j :: size_t). unat (f_eps - j)))"
    by simp
next
  fix eh :: ElasticHash and key i f_eps j :: size_t
  assume "j < f_eps"
  then have "unat (f_eps - (j + 1)) < unat (f_eps - j)"
    by unat_arith
  then show "((eh, key, i, f_eps, j + 1), (eh, key, i, f_eps, j))
      \<in> measure (\<lambda>(eh, key, i, f_eps, j). unat (f_eps - j))"
    by simp
qed

text \<open>Case 3: the loop \<open>for (j = 0;; j++)\<close>, from \<open>j\<close> on. It has no bound, so
  it is a partial function: \<open>None\<close> is the loop that never ends.\<close>

partial_function (option) case3_probe ::
  "ElasticHash \<Rightarrow> size_t \<Rightarrow> size_t \<Rightarrow> size_t \<Rightarrow> (error + size_t) option" where
  "case3_probe eh key i j =
     (case probe_sequence eh key i j of
        Inl e \<Rightarrow> Some (Inl e)
      | Inr pos \<Rightarrow>
          if n eh \<le> pos then Some (Inl OutOfBounds)
          else if table eh pos = 0 then Some (Inr pos)
          else case3_probe eh key i (j + 1))"

text \<open>Lines 167 to 176: the batch after a call that stored nothing.\<close>

definition advance_batch :: "ElasticHash \<Rightarrow> ElasticHash" where
  "advance_batch eh =
     (let b = current_batch eh;
          b = b\<lparr>current := current b + 1\<rparr>
      in if size_batch b \<le> current b then
           (let i = log2_size_t (start_index b + 1)
            in if i + 1 < num_arrays eh then
                 eh\<lparr>current_batch :=
                      \<lparr>start_index = start_index b + size_batch b,
                       size_batch = size_sub (arrays eh (i + 1)) -
                         size_t_of_double (0.75 * double_of_size_t (size_sub (arrays eh (i + 1)))),
                       current = 0\<rparr>\<rparr>
               else eh\<lparr>current_batch := b\<rparr>)
         else eh\<lparr>current_batch := b\<rparr>)"

text \<open>Line 126, \<open>1.0 - ((double)filled_slots / size)\<close>: with \<open>size = 0\<close> the
  quotient is a NaN if \<open>filled_slots\<close> is 0 as well and \<open>+\<infinity>\<close> if not.\<close>

definition epsilon_of :: "SubArray \<Rightarrow> double" where
  "epsilon_of sa =
     (if size_sub sa = 0 then (if filled_slots sa = 0 then NaN else MinusInf)
      else Finite (1 - double_of_size_t (filled_slots sa) / double_of_size_t (size_sub sa)))"

text \<open>
  The loop \<open>for (i = batch_i; i < num_arrays; i++)\<close> with the three cases, from
  \<open>i\<close> on, followed by the lines after it.
\<close>

function insert_loop ::
  "ElasticHash \<Rightarrow> size_t \<Rightarrow> size_t \<Rightarrow> (error + bool \<times> ElasticHash) option" where
  "insert_loop eh key i =
     (if i < num_arrays eh then
        (let eps = epsilon_of (arrays eh i);
             eh1 = eh\<lparr>arrays := (arrays eh)(i := (arrays eh i)\<lparr>epsilon := eps\<rparr>)\<rparr>
         in if i < num_arrays eh - 1 \<and> double_gt eps (delta eh / 2) \<and>
               double_gt (epsilon (arrays eh1 (i + 1))) 0.25 then
              (case case1_probe eh1 key i (compute_f eps (delta eh)) 0 of
                 Inl e \<Rightarrow> Some (Inl e)
               | Inr (Some pos) \<Rightarrow> Some (Inr (True, store_key eh1 key i pos))
               | Inr None \<Rightarrow> insert_loop eh1 key (i + 1))
            else if double_le eps (delta eh / 2) \<and> i + 1 < num_arrays eh then
              insert_loop eh1 key (i + 1)
            else if i + 1 < num_arrays eh \<and> double_le (epsilon (arrays eh1 (i + 1))) 0.25 then
              (case case3_probe eh1 key i 0 of
                 None \<Rightarrow> None
               | Some (Inl e) \<Rightarrow> Some (Inl e)
               | Some (Inr pos) \<Rightarrow> Some (Inr (True, store_key eh1 key i pos)))
            else insert_loop eh1 key (i + 1))
      else Some (Inr (False, advance_batch eh)))"
  by pat_completeness auto
termination
proof (relation "measure (\<lambda>(eh, key, i). unat (num_arrays eh - i))")
  show "wf (measure (\<lambda>(eh :: ElasticHash, key :: size_t, i :: size_t).
      unat (num_arrays eh - i)))"
    by simp
next
  fix eh :: ElasticHash and key i :: size_t and x :: double and xa :: ElasticHash
  assume "i < num_arrays eh"
    and "xa = eh\<lparr>arrays := (arrays eh)(i := (arrays eh i)\<lparr>epsilon := x\<rparr>)\<rparr>"
  then have "unat (num_arrays xa - (i + 1)) < unat (num_arrays eh - i)"
    by simp unat_arith
  then show "((xa, key, i + 1), (eh, key, i)) \<in> measure (\<lambda>(eh, key, i). unat (num_arrays eh - i))"
    by simp
next
  fix eh :: ElasticHash and key i :: size_t and x :: double and xa :: ElasticHash
  assume "i < num_arrays eh"
    and "xa = eh\<lparr>arrays := (arrays eh)(i := (arrays eh i)\<lparr>epsilon := x\<rparr>)\<rparr>"
  then have "unat (num_arrays xa - (i + 1)) < unat (num_arrays eh - i)"
    by simp unat_arith
  then show "((xa, key, i + 1), (eh, key, i)) \<in> measure (\<lambda>(eh, key, i). unat (num_arrays eh - i))"
    by simp
next
  fix eh :: ElasticHash and key i :: size_t and x :: double and xa :: ElasticHash
  assume "i < num_arrays eh"
    and "xa = eh\<lparr>arrays := (arrays eh)(i := (arrays eh i)\<lparr>epsilon := x\<rparr>)\<rparr>"
  then have "unat (num_arrays xa - (i + 1)) < unat (num_arrays eh - i)"
    by simp unat_arith
  then show "((xa, key, i + 1), (eh, key, i)) \<in> measure (\<lambda>(eh, key, i). unat (num_arrays eh - i))"
    by simp
qed

definition elastic_hash_insert ::
  "ElasticHash \<Rightarrow> size_t \<Rightarrow> (error + bool \<times> ElasticHash) option" where
  "elastic_hash_insert eh key =
     (if double_of_size_t (n eh) * (1 - delta eh) \<le> double_of_size_t (items eh)
      then Some (Inr (False, eh))
      else insert_loop eh key (log2_size_t (start_index (current_batch eh) + 1)))"

section \<open>Search\<close>

text \<open>The inner loop of \<open>elastic_hash_search\<close>, from \<open>j\<close> on: the position of
  the key if a probed slot holds it before an empty slot is probed and within the
  budget.\<close>

function search_probe ::
  "ElasticHash \<Rightarrow> size_t \<Rightarrow> size_t \<Rightarrow> size_t \<Rightarrow> size_t \<Rightarrow> error + size_t option" where
  "search_probe eh key i f_eps j =
     (if j < f_eps then
        (case probe_sequence eh key i j of
           Inl e \<Rightarrow> Inl e
         | Inr pos \<Rightarrow>
             if n eh \<le> pos then Inl OutOfBounds
             else if table eh pos = key then Inr (Some pos)
             else if table eh pos = 0 then Inr None
             else search_probe eh key i f_eps (j + 1))
      else Inr None)"
  by pat_completeness auto
termination
proof (relation "measure (\<lambda>(eh, key, i, f_eps, j). unat (f_eps - j))")
  show "wf (measure (\<lambda>(eh :: ElasticHash, key :: size_t, i :: size_t, f_eps :: size_t,
      j :: size_t). unat (f_eps - j)))"
    by simp
next
  fix eh :: ElasticHash and key i f_eps j :: size_t
  assume "j < f_eps"
  then have "unat (f_eps - (j + 1)) < unat (f_eps - j)"
    by unat_arith
  then show "((eh, key, i, f_eps, j + 1), (eh, key, i, f_eps, j))
      \<in> measure (\<lambda>(eh, key, i, f_eps, j). unat (f_eps - j))"
    by simp
qed

text \<open>The outer loop, from \<open>i\<close> on. The result is the \<open>ssize_t\<close> returned:
  the position found, converted, or \<open>-1\<close>.\<close>

function search_loop :: "ElasticHash \<Rightarrow> size_t \<Rightarrow> size_t \<Rightarrow> error + int" where
  "search_loop eh key i =
     (if i < num_arrays eh then
        (case search_probe eh key i (compute_f (epsilon (arrays eh i)) (delta eh)) 0 of
           Inl e \<Rightarrow> Inl e
         | Inr (Some pos) \<Rightarrow> Inr (sint pos)
         | Inr None \<Rightarrow> search_loop eh key (i + 1))
      else Inr (- 1))"
  by pat_completeness auto
termination
proof (relation "measure (\<lambda>(eh, key, i). unat (num_arrays eh - i))")
  show "wf (measure (\<lambda>(eh :: ElasticHash, key :: size_t, i :: size_t).
      unat (num_arrays eh - i)))"
    by simp
next
  fix eh :: ElasticHash and key i :: size_t
  assume "i < num_arrays eh"
  then have "unat (num_arrays eh - (i + 1)) < unat (num_arrays eh - i)"
    by unat_arith
  then show "((eh, key, i + 1), (eh, key, i)) \<in> measure (\<lambda>(eh, key, i). unat (num_arrays eh - i))"
    by simp
qed

definition elastic_hash_search :: "ElasticHash \<Rightarrow> size_t \<Rightarrow> error + int" where
  "elastic_hash_search eh key = search_loop eh key 0"

section \<open>Sequences of calls, and the contents of the heap\<close>


text \<open>A block of memory whose bytes are all zero, read as sub-array descriptors: what
  \<open>malloc\<close> returns from pages that the process has not used before.\<close>

definition zero_heap :: "size_t \<Rightarrow> SubArray" where
  "zero_heap = (\<lambda>_. \<lparr>start = 0, size_sub = 0, filled_slots = 0, epsilon = Finite 0\<rparr>)"

section \<open>Properties of the partition\<close>




text \<open>A block of memory that an earlier use has left filled with copies of one
  descriptor.\<close>

definition used_heap :: "SubArray \<Rightarrow> size_t \<Rightarrow> SubArray" where
  "used_heap sa = (\<lambda>_. sa)"

section \<open>Relations between the state before and after a call\<close>

text \<open>\<open>eh2\<close> is \<open>eh\<close> except for the \<open>epsilon\<close> fields of its sub-arrays.\<close>

definition eps_updated :: "ElasticHash \<Rightarrow> ElasticHash \<Rightarrow> bool" where
  "eps_updated eh eh2 \<longleftrightarrow>
     table eh2 = table eh \<and> n eh2 = n eh \<and> delta eh2 = delta eh \<and> items eh2 = items eh \<and>
     num_arrays eh2 = num_arrays eh \<and> current_batch eh2 = current_batch eh \<and>
     beta eh2 = beta eh \<and>
     (\<forall>i. start (arrays eh2 i) = start (arrays eh i) \<and>
          size_sub (arrays eh2 i) = size_sub (arrays eh i) \<and>
          filled_slots (arrays eh2 i) = filled_slots (arrays eh i))"

text \<open>\<open>eh'\<close> is \<open>eh\<close> except for the \<open>epsilon\<close> fields and the batch.\<close>

definition unchanged_but_epsilon_and_batch :: "ElasticHash \<Rightarrow> ElasticHash \<Rightarrow> bool" where
  "unchanged_but_epsilon_and_batch eh eh' \<longleftrightarrow>
     table eh' = table eh \<and> n eh' = n eh \<and> delta eh' = delta eh \<and> items eh' = items eh \<and>
     num_arrays eh' = num_arrays eh \<and> beta eh' = beta eh \<and>
     (\<forall>i. start (arrays eh' i) = start (arrays eh i) \<and>
          size_sub (arrays eh' i) = size_sub (arrays eh i) \<and>
          filled_slots (arrays eh' i) = filled_slots (arrays eh i))"

text \<open>The test of line 118.\<close>

definition capacity_exhausted :: "ElasticHash \<Rightarrow> bool" where
  "capacity_exhausted eh \<longleftrightarrow>
     double_of_size_t (n eh) * (1 - delta eh) \<le> double_of_size_t (items eh)"


section \<open>The batch tracker\<close>






section \<open>The probes of a search\<close>

text \<open>The values \<open>a\<close>, \<open>a + 1\<close>, \<dots> below \<open>b\<close> that a \<open>for\<close> loop over a
  \<open>size_t\<close> runs through.\<close>

definition word_range :: "size_t \<Rightarrow> size_t \<Rightarrow> size_t list" where
  "word_range a b = map word_of_nat [unat a..<unat b]"

text \<open>The probes within the budget of sub-array \<open>i\<close>, and all the probes within the
  budgets, sub-array after sub-array: the order in which \<open>elastic_hash_search\<close> makes
  them as long as no probe ends it.\<close>

definition search_probes_in :: "ElasticHash \<Rightarrow> size_t \<Rightarrow> size_t \<Rightarrow> (error + size_t) list" where
  "search_probes_in eh key i =
     map (probe_sequence eh key i)
       (word_range 0 (compute_f (epsilon (arrays eh i)) (delta eh)))"

definition search_probes :: "ElasticHash \<Rightarrow> size_t \<Rightarrow> (error + size_t) list" where
  "search_probes eh key = concat (map (search_probes_in eh key) (word_range 0 (num_arrays eh)))"

text \<open>The first probe of a list that finds an empty slot of the table; a probe that
  fails or leaves the table before that is the result.\<close>

fun first_empty_slot :: "ElasticHash \<Rightarrow> (error + size_t) list \<Rightarrow> error + size_t option" where
  "first_empty_slot eh [] = Inr None"
| "first_empty_slot eh (Inl e # ps) = Inl e"
| "first_empty_slot eh (Inr pos # ps) =
     (if n eh \<le> pos then Inl OutOfBounds
      else if table eh pos = 0 then Inr (Some pos)
      else first_empty_slot eh ps)"

declare phi_loop.simps [simp del]
declare init_sub_arrays.simps [simp del]
declare case1_probe.simps [simp del]
declare insert_loop.simps [simp del]
declare search_probe.simps [simp del]
declare search_loop.simps [simp del]
declare ilog2.simps [simp del]

section \<open>Evaluating the model\<close>

text \<open>\<open>ilog2\<close> is the integer part of the binary logarithm.\<close>

lemma ilog2_floor_log: "0 < k \<Longrightarrow> int (ilog2 k) = \<lfloor>log 2 (real k)\<rfloor>"
proof (induction k rule: ilog2.induct)
  case (1 k)
  show ?case
  proof (cases "k < 2")
    case True
    with "1.prems" have "k = 1" by simp
    then show ?thesis by (simp add: ilog2.simps)
  next
    case False
    then have "0 < k div 2" by simp
    from "1.IH" [OF False this] False floor_log2_div2 [of k] show ?thesis
      by (subst ilog2.simps) simp
  qed
qed

text \<open>A comparison with the word 1, which is not a numeral.\<close>

lemma word_le_one_iff: "(w :: size_t) \<le> 1 \<longleftrightarrow> w = 0 \<or> w = 1"
  by unat_arith

lemma log_2_4: "log 2 4 = (2 :: real)"
proof -
  have "log 2 (2 ^ 2) = (2 :: real)"
    by (subst log_pow_cancel) simp_all
  then show ?thesis by simp
qed

lemma compute_f_one: "0 < d \<Longrightarrow> d \<le> 1 \<Longrightarrow> compute_f (Finite 1) d = 0"
  by (simp add: compute_f_def size_t_of_double_def min_def)

lemma log_2_10_lower: "13 / 4 < log 2 (10 :: real)"
proof -
  have "(2 :: real) powr (13 / 4) < 10"
  proof (rule power_less_imp_less_base [where n = 4])
    have "((2 :: real) powr (13 / 4)) ^ 4 = 2 powr 13"
      by (simp add: powr_power)
    also have "\<dots> = 2 ^ 13" by (simp add: powr_numeral)
    also have "\<dots> < (10 :: real) ^ 4" by simp
    finally show "((2 :: real) powr (13 / 4)) ^ 4 < 10 ^ 4" .
  qed simp
  moreover have "13 / 4 < log 2 (10 :: real) \<longleftrightarrow> 2 powr (13 / 4) < (10 :: real)"
    by (rule less_log_iff) simp_all
  ultimately show ?thesis by blast
qed

lemma log_2_10_upper: "log 2 (10 :: real) < 7 / 2"
proof -
  have "10 < (2 :: real) powr (7 / 2)"
  proof (rule power_less_imp_less_base [where n = 2])
    have "((2 :: real) powr (7 / 2)) ^ 2 = 2 powr 7"
      by (simp add: powr_power)
    also have "\<dots> = 2 ^ 7" by (simp add: powr_numeral)
    finally show "(10 :: real) ^ 2 < (2 powr (7 / 2)) ^ 2" by simp
  qed simp
  moreover have "log 2 (10 :: real) < 7 / 2 \<longleftrightarrow> (10 :: real) < 2 powr (7 / 2)"
    by (rule log_less_iff) simp_all
  ultimately show ?thesis by blast
qed





text \<open>The constants of the construction for the slacks used below.\<close>

lemma beta_of_half: "beta_of (1 / 2) = 2"
  by (simp add: beta_of_def size_t_of_double_def)

lemma num_arrays_of_half: "num_arrays_of (1 / 2) = 14"
  by (simp add: num_arrays_of_def size_t_of_double_def)

lemma beta_of_quarter: "beta_of (1 / 4) = 4"
  by (simp add: beta_of_def size_t_of_double_def log_2_4)

lemma num_arrays_of_quarter: "num_arrays_of (1 / 4) = 18"
  by (simp add: num_arrays_of_def size_t_of_double_def log_2_4)

lemma beta_of_tenth: "beta_of (1 / 10) = 6"
proof -
  have "\<lfloor>2 * log 2 (10 :: real)\<rfloor> = 6"
    using log_2_10_lower log_2_10_upper by (simp add: floor_eq_iff)
  then show ?thesis by (simp add: beta_of_def size_t_of_double_def)
qed

lemma num_arrays_of_tenth: "num_arrays_of (1 / 10) = 24"
proof -
  have "\<lceil>4 * log 2 (10 :: real) + 10\<rceil> = 24"
    using log_2_10_lower log_2_10_upper by (simp add: ceiling_eq_iff)
  then show ?thesis by (simp add: num_arrays_of_def size_t_of_double_def)
qed

lemma compute_f_half_tenth: "compute_f (Finite (1 / 2)) (1 / 10) = 4"
proof -
  have "1 \<le> log 2 (10 :: real)" using log_2_10_lower by simp
  then show ?thesis by (simp add: compute_f_def size_t_of_double_def min_def)
qed

lemma sub_arrays_of_1024_tenth:
  "sub_arrays_of 1024 (1 / 10) =
     Inr [\<lparr>start = 0, size_sub = 768, filled_slots = 0, epsilon = Finite 1\<rparr>,
          \<lparr>start = 768, size_sub = 192, filled_slots = 0, epsilon = Finite 1\<rparr>,
          \<lparr>start = 960, size_sub = 48, filled_slots = 0, epsilon = Finite 1\<rparr>,
          \<lparr>start = 1008, size_sub = 12, filled_slots = 0, epsilon = Finite 1\<rparr>]"
  by (simp add: sub_arrays_of_def beta_of_tenth num_arrays_of_tenth init_sub_arrays.simps)

text \<open>The equations that run the operations on a concrete state, once the constants of
  the construction are known.\<close>

lemmas run_defs =
  size_t_of_double_def double_of_size_t_def log2_size_t_def ilog2.simps
  phi_def phi_loop.simps probe_sequence_def store_key_def advance_batch_def epsilon_of_def
  elastic_hash_insert_def insert_loop.simps case1_probe.simps case3_probe.simps
  elastic_hash_search_def search_loop.simps search_probe.simps
  elastic_hash_init_def zero_heap_def used_heap_def Let_def

lemmas eval_defs =
  size_t_of_double_def double_of_size_t_def log2_size_t_def ilog2.simps
  phi_def phi_loop.simps probe_sequence_def store_key_def advance_batch_def
  elastic_hash_insert_def insert_loop.simps case1_probe.simps case3_probe.simps
  elastic_hash_search_def search_loop.simps search_probe.simps
  elastic_hash_init_def sub_arrays_of_def beta_of_def num_arrays_of_def init_sub_arrays.simps
  zero_heap_def Let_def

section \<open>What a call of \<open>elastic_hash_insert\<close> can do\<close>

lemma eps_updated_refl: "eps_updated eh eh"
  by (simp add: eps_updated_def)

lemma eps_updated_step:
  "eps_updated eh (eh\<lparr>arrays := (arrays eh)(i := (arrays eh i)\<lparr>epsilon := e\<rparr>)\<rparr>)"
  by (simp add: eps_updated_def)

lemma eps_updated_trans: "eps_updated a b \<Longrightarrow> eps_updated b c \<Longrightarrow> eps_updated a c"
  by (simp add: eps_updated_def)

text \<open>One round of the loop over the sub-arrays.\<close>

lemma insert_loop_step:
  assumes "i < num_arrays eh" "eps = epsilon_of (arrays eh i)"
    "eh1 = eh\<lparr>arrays := (arrays eh)(i := (arrays eh i)\<lparr>epsilon := eps\<rparr>)\<rparr>"
  shows "insert_loop eh key i =
     (if i < num_arrays eh - 1 \<and> double_gt eps (delta eh / 2) \<and>
         double_gt (epsilon (arrays eh1 (i + 1))) 0.25 then
        (case case1_probe eh1 key i (compute_f eps (delta eh)) 0 of
           Inl e \<Rightarrow> Some (Inl e)
         | Inr (Some pos) \<Rightarrow> Some (Inr (True, store_key eh1 key i pos))
         | Inr None \<Rightarrow> insert_loop eh1 key (i + 1))
      else if double_le eps (delta eh / 2) \<and> i + 1 < num_arrays eh then
        insert_loop eh1 key (i + 1)
      else if i + 1 < num_arrays eh \<and> double_le (epsilon (arrays eh1 (i + 1))) 0.25 then
        (case case3_probe eh1 key i 0 of
           None \<Rightarrow> None
         | Some (Inl e) \<Rightarrow> Some (Inl e)
         | Some (Inr pos) \<Rightarrow> Some (Inr (True, store_key eh1 key i pos)))
      else insert_loop eh1 key (i + 1))"
  using assms(1) unfolding assms(3) assms(2)
  by (subst insert_loop.simps) (simp add: Let_def split del: if_split)

text \<open>A call that returns has rewritten some \<open>epsilon\<close> fields and then either
  stored the key in one slot or advanced the batch.\<close>

lemma insert_loop_result:
  "insert_loop eh key i = Some (Inr (r, eh')) \<Longrightarrow>
     \<exists>eh2. eps_updated eh eh2 \<and>
       (if r then \<exists>k pos. eh' = store_key eh2 key k pos else eh' = advance_batch eh2)"
proof (induction eh key i arbitrary: r eh' rule: insert_loop.induct)
  case (1 eh key i)
  show ?case
  proof (cases "i < num_arrays eh")
    case False
    with "1.prems" have "r = False" "eh' = advance_batch eh"
      by (simp_all add: insert_loop.simps)
    then show ?thesis using eps_updated_refl by auto
  next
    case True
    note lt = this
    show ?thesis
    proof -
      define eps where "eps = epsilon_of (arrays eh i)"
      define eh1 where "eh1 = eh\<lparr>arrays := (arrays eh)(i := (arrays eh i)\<lparr>epsilon := eps\<rparr>)\<rparr>"
      have up: "eps_updated eh eh1" unfolding eh1_def by (rule eps_updated_step)
      have rec: "\<exists>eh2. eps_updated eh eh2 \<and>
          (if r then \<exists>k pos. eh' = store_key eh2 key k pos else eh' = advance_batch eh2)"
        if "insert_loop eh1 key (i + 1) = Some (Inr (r, eh'))"
           "\<And>r eh'. insert_loop eh1 key (i + 1) = Some (Inr (r, eh')) \<Longrightarrow>
              \<exists>eh2. eps_updated eh1 eh2 \<and>
                (if r then \<exists>k pos. eh' = store_key eh2 key k pos else eh' = advance_batch eh2)"
      proof -
        from that(2) [OF that(1)] obtain eh2 where "eps_updated eh1 eh2"
          "if r then \<exists>k pos. eh' = store_key eh2 key k pos else eh' = advance_batch eh2"
          by blast
        with up show ?thesis using eps_updated_trans by blast
      qed
      have stored: "\<exists>eh2. eps_updated eh eh2 \<and>
          (if r then \<exists>k pos. eh' = store_key eh2 key k pos else eh' = advance_batch eh2)"
        if "r" "eh' = store_key eh1 key i pos" for pos
        using that up by auto
      note unfolded = "1.prems" [unfolded insert_loop_step [OF lt eps_def eh1_def]]
      show ?thesis
      proof (cases "i < num_arrays eh - 1 \<and> double_gt eps (delta eh / 2) \<and>
          double_gt (epsilon (arrays eh1 (i + 1))) 0.25")
        case True
        note c1 = this
        with unfolded have c1res: "(case case1_probe eh1 key i (compute_f eps (delta eh)) 0 of
                    Inl e \<Rightarrow> Some (Inl e)
                  | Inr (Some pos) \<Rightarrow> Some (Inr (True, store_key eh1 key i pos))
                  | Inr None \<Rightarrow> insert_loop eh1 key (i + 1)) = Some (Inr (r, eh'))"
          by (simp only: if_True simp_thms)
        show ?thesis
        proof (cases "case1_probe eh1 key i (compute_f eps (delta eh)) 0")
          case (Inl e)
          with c1res show ?thesis by simp
        next
          case (Inr found)
          show ?thesis
          proof (cases found)
            case None
            with c1res Inr have "insert_loop eh1 key (i + 1) = Some (Inr (r, eh'))" by simp
            then show ?thesis
              using "1.IH"(1) [OF lt eps_def eh1_def c1 Inr None] by (rule rec)
          next
            case (Some pos)
            with c1res Inr have "r" "eh' = store_key eh1 key i pos" by simp_all
            then show ?thesis by (rule stored)
          qed
        qed
      next
        case False
        note nc1 = this
        show ?thesis
        proof (cases "double_le eps (delta eh / 2) \<and> i + 1 < num_arrays eh")
          case True
          with unfolded nc1 have "insert_loop eh1 key (i + 1) = Some (Inr (r, eh'))"
            by (simp only: if_True if_False simp_thms)
          then show ?thesis
            using "1.IH"(2) [OF lt eps_def eh1_def nc1 True] by (rule rec)
        next
          case False
          note nc2 = this
          show ?thesis
          proof (cases "i + 1 < num_arrays eh \<and> double_le (epsilon (arrays eh1 (i + 1))) 0.25")
            case True
            with unfolded nc1 nc2 have "(case case3_probe eh1 key i 0 of
                    None \<Rightarrow> None
                  | Some (Inl e) \<Rightarrow> Some (Inl e)
                  | Some (Inr pos) \<Rightarrow> Some (Inr (True, store_key eh1 key i pos))) = Some (Inr (r, eh'))"
              by (simp only: if_True if_False simp_thms)
            then obtain pos where "r" "eh' = store_key eh1 key i pos"
              by (auto split: option.splits sum.splits)
            then show ?thesis by (rule stored)
          next
            case False
            with unfolded nc1 nc2 have "insert_loop eh1 key (i + 1) = Some (Inr (r, eh'))"
              by (simp only: if_False simp_thms)
            then show ?thesis
              using "1.IH"(3) [OF lt eps_def eh1_def nc1 nc2 False] by (rule rec)
          qed
        qed
      qed
    qed
  qed
qed


lemma elastic_hash_insert_result:
  assumes "elastic_hash_insert eh key = Some (Inr (r, eh'))"
  shows "(capacity_exhausted eh \<and> \<not> r \<and> eh' = eh) \<or>
     (\<not> capacity_exhausted eh \<and>
      (\<exists>eh2. eps_updated eh eh2 \<and>
         (if r then \<exists>k pos. eh' = store_key eh2 key k pos else eh' = advance_batch eh2)))"
proof (cases "capacity_exhausted eh")
  case True
  with assms show ?thesis
    by (simp add: elastic_hash_insert_def capacity_exhausted_def)
next
  case False
  with assms have "insert_loop eh key (log2_size_t (start_index (current_batch eh) + 1)) =
      Some (Inr (r, eh'))"
    by (simp add: elastic_hash_insert_def capacity_exhausted_def)
  from insert_loop_result [OF this] False show ?thesis by simp
qed

lemma advance_batch_fields:
  "table (advance_batch eh) = table eh" "n (advance_batch eh) = n eh"
  "delta (advance_batch eh) = delta eh" "items (advance_batch eh) = items eh"
  "num_arrays (advance_batch eh) = num_arrays eh" "beta (advance_batch eh) = beta eh"
  "arrays (advance_batch eh) = arrays eh"
  by (simp_all add: advance_batch_def Let_def)

section \<open>C1: the capacity bound\<close>









section \<open>C2: searching a key that was inserted\<close>

lemma compute_f_zero_quarter: "compute_f (Finite 0) (1 / 4) = 8"
  by (simp add: compute_f_def size_t_of_double_def log_2_4)

text \<open>The two runs used below, with \<open>n = 9\<close> and \<open>delta = 1/4\<close>: the
  insertion of key 1 into the new table, followed by the search for it. In the first the
  descriptor block is zero-filled; in the second its uninitialised descriptors have size 1
  and \<open>epsilon = 0\<close>.\<close>

lemma search_after_insert_zero_heap:
  "\<exists>eh0 eh. elastic_hash_init zero_heap 9 (1 / 4) = Inr eh0 \<and>
     elastic_hash_insert eh0 1 = Some (Inr (True, eh)) \<and> table eh 4 = 1 \<and>
     elastic_hash_search eh 1 = Inl DivByZero"
  by (simp add: run_defs sub_arrays_of_def init_sub_arrays.simps num_arrays_of_quarter
      beta_of_quarter compute_f_one compute_f_zero_quarter word_le_one_iff)

lemma search_after_insert_used_heap:
  "\<exists>eh0 eh. elastic_hash_init
       (used_heap \<lparr>start = 0, size_sub = 1, filled_slots = 0, epsilon = Finite 0\<rparr>) 9 (1 / 4) =
       Inr eh0 \<and>
     elastic_hash_insert eh0 1 = Some (Inr (True, eh)) \<and> table eh 4 = 1 \<and>
     elastic_hash_search eh 1 = Inr (- 1)"
  by (simp add: run_defs sub_arrays_of_def init_sub_arrays.simps num_arrays_of_quarter
      beta_of_quarter compute_f_one compute_f_zero_quarter word_le_one_iff)

text \<open>
  C2. The claim is that a key whose insertion succeeded is found by the search. With
  \<open>n = 9\<close> and \<open>delta = 1/4\<close> the insertion of key 1 stores it in slot 4,
  through case 3 of sub-array 1. The search then gives the sub-arrays 0 and 1 the budget
  \<open>compute_f(1.0, delta) = 0\<close>, since their stored \<open>epsilon\<close> is still 1, so it
  probes neither, and goes on to the uninitialised sub-arrays. When the descriptor block
  is zero-filled their size is 0 and the search divides by zero; when they have size 1 and
  start 0 the search probes the empty slot 0 for each of them and returns \<open>-1\<close>.
\<close>

theorem search_misses_inserted_key:
  "(\<exists>eh0 eh. elastic_hash_init zero_heap 9 (1 / 4) = Inr eh0 \<and>
      elastic_hash_insert eh0 1 = Some (Inr (True, eh)) \<and> table eh 4 = 1 \<and>
      elastic_hash_search eh 1 = Inl DivByZero) \<and>
   (\<exists>eh0 eh. elastic_hash_init
        (used_heap \<lparr>start = 0, size_sub = 1, filled_slots = 0, epsilon = Finite 0\<rparr>) 9 (1 / 4) =
        Inr eh0 \<and>
      elastic_hash_insert eh0 1 = Some (Inr (True, eh)) \<and> table eh 4 = 1 \<and>
      elastic_hash_search eh 1 = Inr (- 1))"
  using search_after_insert_zero_heap search_after_insert_used_heap by (rule conjI)

section \<open>C3: the geometry of the partition\<close>










section \<open>C4: the run of \<open>main\<close>\<close>


text \<open>With a zero-filled block the same call stores the key, in slot 1018 of
  sub-array 3.\<close>

lemma main_run_first_insert_zero_heap:
  "\<exists>eh eh1. elastic_hash_init zero_heap 1024 (1 / 10) = Inr eh \<and>
     elastic_hash_insert eh 1 = Some (Inr (True, eh1)) \<and> table eh1 1018 = 1"
  by (simp add: run_defs sub_arrays_of_1024_tenth num_arrays_of_tenth beta_of_tenth
      compute_f_one compute_f_half_tenth word_le_one_iff)

section \<open>C5: \<open>phi\<close> is not an injection\<close>

text \<open>
  C5. The claim is that \<open>phi(i, j) = phi(i', j')\<close> implies \<open>i = i'\<close> and
  \<open>j = j'\<close>. The code gives the pairs \<open>(0, 1)\<close> and \<open>(6, 0)\<close> the same
  value 14: the bits of \<open>i = 6\<close> are shifted in over \<open>(size_t)log2(7) = 2\<close>
  places only, so that its top bit takes the place of the separating zero and reads as
  one more interleaved pair of \<open>j\<close>.
\<close>

theorem phi_collision: "phi 0 1 = 14 \<and> phi 6 0 = 14 \<and> phi 0 1 = phi 6 0"
  by (simp add: eval_defs)

section \<open>C6: the batch tracker\<close>




















section \<open>C7: termination of an insertion\<close>

text \<open>\<open>phi(0, j)\<close> is twice an odd number, whatever \<open>j\<close> is.\<close>

lemma phi_loop_odd: "odd result \<Longrightarrow> odd (phi_loop result j)"
proof (induction result j rule: phi_loop.induct)
  case (1 result j)
  show ?case
  proof (cases "0 < j")
    case True
    have "odd (push_bit 2 result OR push_bit 1 (j AND 1) OR 1)"
      by (simp add: even_or_iff)
    from "1.IH" [OF True this] True show ?thesis
      by (subst phi_loop.simps) simp
  next
    case False
    with "1.prems" show ?thesis by (subst phi_loop.simps) simp
  qed
qed

lemma phi_0_mod_4: "(phi 0 j XOR 8) mod 4 = 2"
proof -
  define x where "x = phi_loop 1 j"
  have ox: "odd x" unfolding x_def by (rule phi_loop_odd) simp
  have p: "phi 0 j = push_bit 1 x"
    by (simp add: phi_def log2_size_t_def ilog2.simps x_def Let_def)
  have "(push_bit 1 x XOR 8) mod 2 ^ 2 = take_bit 2 (push_bit 1 x XOR 8)"
    by (simp only: take_bit_eq_mod)
  also have "\<dots> = take_bit 2 (push_bit 1 x) XOR take_bit 2 (8 :: size_t)"
    by (simp only: take_bit_xor)
  also have "take_bit 2 (8 :: size_t) = 0" by simp
  also have "take_bit 2 (push_bit 1 x) = push_bit 1 (take_bit 1 x)"
    by (subst take_bit_push_bit) simp
  also have "take_bit 1 x = 1" using ox by (simp add: take_bit_Suc_from_most mod_2_eq_odd)
  finally show ?thesis by (simp add: p)
qed


text \<open>If the loop of case 3 returns, one of its probes failed, left the table or found
  an empty slot; so a loop whose probes all find occupied slots of the table does not
  return.\<close>

lemma case3_probe_Some:
  assumes "case3_probe eh key i j = Some y"
  shows "\<exists>j'. \<forall>pos. probe_sequence eh key i j' = Inr pos \<longrightarrow> n eh \<le> pos \<or> table eh pos = 0"
proof (rule case3_probe.raw_induct [where P = "\<lambda>eh key i j y.
    \<exists>j'. \<forall>pos. probe_sequence eh key i j' = Inr pos \<longrightarrow> n eh \<le> pos \<or> table eh pos = 0",
    OF _ assms])
  fix f :: "ElasticHash \<Rightarrow> size_t \<Rightarrow> size_t \<Rightarrow> size_t \<Rightarrow> (error + size_t) option"
  fix eh key i j y
  assume IH: "\<And>eh key i j y. f eh key i j = Some y \<Longrightarrow>
      \<exists>j'. \<forall>pos. probe_sequence eh key i j' = Inr pos \<longrightarrow> n eh \<le> pos \<or> table eh pos = 0"
  assume eq: "(case probe_sequence eh key i j of
        Inl e \<Rightarrow> Some (Inl e)
      | Inr pos \<Rightarrow>
          if n eh \<le> pos then Some (Inl OutOfBounds)
          else if table eh pos = 0 then Some (Inr pos)
          else f eh key i (j + 1)) = Some y"
  show "\<exists>j'. \<forall>pos. probe_sequence eh key i j' = Inr pos \<longrightarrow> n eh \<le> pos \<or> table eh pos = 0"
  proof (cases "probe_sequence eh key i j")
    case (Inl e)
    then show ?thesis by (intro exI [of _ j]) simp
  next
    case (Inr pos)
    show ?thesis
    proof (cases "n eh \<le> pos \<or> table eh pos = 0")
      case True
      with Inr show ?thesis by (intro exI [of _ j]) simp
    next
      case False
      with eq Inr have "f eh key i (j + 1) = Some y" by simp
      then show ?thesis by (rule IH)
    qed
  qed
qed

lemma case3_probe_diverges:
  assumes "\<And>j. \<exists>pos. probe_sequence eh key i j = Inr pos \<and> pos < n eh \<and> table eh pos \<noteq> 0"
  shows "case3_probe eh key i j = None"
proof (rule ccontr)
  assume "case3_probe eh key i j \<noteq> None"
  then obtain y where "case3_probe eh key i j = Some y" by blast
  from case3_probe_Some [OF this] obtain j' where
    "\<forall>pos. probe_sequence eh key i j' = Inr pos \<longrightarrow> n eh \<le> pos \<or> table eh pos = 0" by blast
  moreover from assms obtain pos where "probe_sequence eh key i j' = Inr pos" "pos < n eh"
    "table eh pos \<noteq> 0" by blast
  ultimately show False by auto
qed

text \<open>In a sub-array 0 of size 4, every probe for key 8 is slot 2.\<close>

lemma probe_stuck:
  assumes "start (arrays eh 0) = 0" and "size_sub (arrays eh 0) = 4"
  shows "probe_sequence eh 8 0 j = Inr 2"
  by (simp add: probe_sequence_def Let_def assms phi_0_mod_4)

lemma case3_probe_stuck:
  assumes "start (arrays eh 0) = 0" and "size_sub (arrays eh 0) = 4" and "2 < n eh"
    and "table eh 2 \<noteq> 0"
  shows "case3_probe eh 8 0 j = None"
  by (rule case3_probe_diverges) (simp add: probe_stuck assms)

lemmas run_defs_no_case3 =
  size_t_of_double_def double_of_size_t_def log2_size_t_def ilog2.simps
  store_key_def advance_batch_def epsilon_of_def
  elastic_hash_insert_def insert_loop.simps case1_probe.simps
  zero_heap_def Let_def

text \<open>
  C7. The claim is that every insertion made below the capacity terminates. With
  \<open>n = 6\<close>, \<open>delta = 1/4\<close> and a zero-filled descriptor block there is one
  sub-array, slots 0 to 3. The insertion of key 4 stores it in slot 2. The insertion of
  key 8 is made with 1 item against a capacity of 4.5, enters case 3 for sub-array 0, and
  probes slot 2 for every \<open>j\<close>: the three empty slots of the sub-array are never
  probed, and the call does not return.
\<close>

theorem endless_insert_run:
  "\<exists>eh0 eh. elastic_hash_init zero_heap 6 (1 / 4) = Inr eh0 \<and>
     elastic_hash_insert eh0 4 = Some (Inr (True, eh)) \<and>
     \<not> capacity_exhausted eh \<and>
     elastic_hash_insert eh 8 = None"
proof -
  define eh0 where "eh0 = \<lparr>table = (\<lambda>_. 0 :: size_t), n = 6, delta = 1 / 4, items = 0,
     arrays = (\<lambda>i. if unat i < length [\<lparr>start = 0, size_sub = 4, filled_slots = 0, epsilon = Finite 1\<rparr>]
        then [\<lparr>start = 0, size_sub = 4, filled_slots = 0, epsilon = Finite 1\<rparr>] ! unat i else zero_heap i),
     num_arrays = 18, current_batch = \<lparr>start_index = 0, size_batch = 3, current = 0\<rparr>,
     beta = 4\<rparr>"
  define eh1 where "eh1 = store_key eh0 4 0 2"
  have init: "elastic_hash_init zero_heap 6 (1 / 4) = Inr eh0"
    by (simp add: eh0_def elastic_hash_init_def sub_arrays_of_def init_sub_arrays.simps
        num_arrays_of_quarter beta_of_quarter Let_def size_t_of_double_def double_of_size_t_def)
  have first: "elastic_hash_insert eh0 4 = Some (Inr (True, eh1))"
    by (simp add: eh0_def eh1_def run_defs compute_f_one word_le_one_iff)
  have cap: "\<not> capacity_exhausted eh1"
    by (simp add: eh0_def eh1_def capacity_exhausted_def store_key_def double_of_size_t_def)
  have second: "elastic_hash_insert eh1 8 = None"
    by (simp add: eh0_def eh1_def run_defs_no_case3 case3_probe_stuck)
  from init first cap second show ?thesis by blast
qed

section \<open>C8: the sub-arrays that the operations visit\<close>

text \<open>For \<open>n = 1024\<close> and \<open>delta = 0.1\<close>, the configuration of \<open>main\<close>, the
  construction writes four descriptors and leaves \<open>num_arrays\<close> at 24: the entries 4
  to 23 of \<open>arrays\<close> are what the heap held.\<close>

lemma init_1024_tenth_keeps_heap:
  "\<exists>eh. elastic_hash_init heap 1024 (1 / 10) = Inr eh \<and> num_arrays eh = 24 \<and>
     (\<forall>i. 4 \<le> i \<longrightarrow> arrays eh i = heap i)"
  by (simp add: elastic_hash_init_def sub_arrays_of_1024_tenth num_arrays_of_tenth Let_def
      word_le_nat_alt)

text \<open>
  C8. The claim is that the operations visit initialised sub-arrays only and that every
  slot index they compute is below \<open>n\<close>. In the configuration of \<open>main\<close> the loop
  of \<open>elastic_hash_insert\<close> runs over all 24 entries. When the block that
  \<open>malloc\<close> returned holds descriptors of an earlier use, here with \<open>start = 5000\<close>,
  the first insertion probes sub-array 4 and reads the table at a slot beyond its 1024.
\<close>

theorem insert_visits_uninitialised_sub_arrays:
  "\<exists>eh. elastic_hash_init
          (used_heap \<lparr>start = 5000, size_sub = 2, filled_slots = 1, epsilon = Finite 1\<rparr>)
          1024 (1 / 10) = Inr eh \<and>
        (\<exists>sas. sub_arrays_of 1024 (1 / 10) = Inr sas \<and> length sas = 4) \<and>
        num_arrays eh = 24 \<and>
        elastic_hash_insert eh 1 = Some (Inl OutOfBounds)"
  by (simp add: run_defs sub_arrays_of_1024_tenth num_arrays_of_tenth beta_of_tenth
      compute_f_one compute_f_half_tenth)

section \<open>C9: a failed insertion\<close>

text \<open>
  C9. When \<open>elastic_hash_insert\<close> returns \<open>false\<close>, the table, the item count,
  every sub-array's \<open>start\<close>, \<open>size\<close> and \<open>filled_slots\<close>, and \<open>n\<close>,
  \<open>delta\<close>, \<open>num_arrays\<close> and \<open>beta\<close> are as before the call: only the
  \<open>epsilon\<close> fields and the batch can differ.
\<close>

theorem insert_false_unchanged:
  assumes "elastic_hash_insert eh key = Some (Inr (False, eh'))"
  shows "unchanged_but_epsilon_and_batch eh eh'"
proof -
  from elastic_hash_insert_result [OF assms]
  consider "eh' = eh" | eh2 where "eps_updated eh eh2" "eh' = advance_batch eh2"
    by auto
  then show ?thesis
  proof cases
    case 1
    then show ?thesis by (simp add: unchanged_but_epsilon_and_batch_def)
  next
    case 2
    then show ?thesis
      by (simp add: unchanged_but_epsilon_and_batch_def eps_updated_def advance_batch_fields)
  qed
qed

text \<open>A call that returns \<open>false\<close>: \<open>n = 4\<close>, \<open>delta = 1/2\<close>, and a block
  whose uninitialised descriptors have \<open>epsilon = 1\<close>.\<close>

lemma deferred_insert_run:
  "\<exists>eh eh1. elastic_hash_init
          (used_heap \<lparr>start = 0, size_sub = 1, filled_slots = 0, epsilon = Finite 1\<rparr>)
          4 (1 / 2) = Inr eh \<and>
        elastic_hash_insert eh 1 = Some (Inr (False, eh1))"
  by (simp add: run_defs sub_arrays_of_def init_sub_arrays.simps num_arrays_of_half beta_of_half
      compute_f_one)

theorem insert_false_unchanged_witness:
  "\<exists>eh eh1. elastic_hash_init
          (used_heap \<lparr>start = 0, size_sub = 1, filled_slots = 0, epsilon = Finite 1\<rparr>)
          4 (1 / 2) = Inr eh \<and>
        elastic_hash_insert eh 1 = Some (Inr (False, eh1)) \<and>
        unchanged_but_epsilon_and_batch eh eh1"
  using deferred_insert_run insert_false_unchanged by blast

section \<open>C10: searching the key 0\<close>

lemma first_empty_slot_append:
  "first_empty_slot eh (ps @ qs) =
     (case first_empty_slot eh ps of
        Inl e \<Rightarrow> Inl e
      | Inr (Some pos) \<Rightarrow> Inr (Some pos)
      | Inr None \<Rightarrow> first_empty_slot eh qs)"
  by (induction eh ps rule: first_empty_slot.induct) simp_all

lemma word_range_Cons:
  assumes "a < b"
  shows "word_range a b = a # word_range (a + 1) b"
proof -
  from assms have "unat a < unat b" by (simp add: word_less_nat_alt)
  moreover from assms have "unat (a + 1) = Suc (unat a)" by unat_arith
  ultimately show ?thesis by (simp add: word_range_def upt_conv_Cons)
qed

lemma word_range_Nil: "\<not> a < b \<Longrightarrow> word_range a b = []"
  by (simp add: word_range_def word_less_nat_alt)

lemma search_probe_zero:
  "search_probe eh 0 i f_eps j =
     first_empty_slot eh (map (probe_sequence eh 0 i) (word_range j f_eps))"
proof (induction eh "0 :: size_t" i f_eps j rule: search_probe.induct)
  case (1 eh i f_eps j)
  show ?case
  proof (cases "j < f_eps")
    case False
    then show ?thesis by (simp add: search_probe.simps word_range_Nil)
  next
    case True
    show ?thesis
    proof (cases "probe_sequence eh 0 i j")
      case (Inl e)
      with True show ?thesis by (simp add: search_probe.simps word_range_Cons)
    next
      case (Inr pos)
      show ?thesis
      proof (cases "n eh \<le> pos \<or> table eh pos = 0")
        case True
        with \<open>j < f_eps\<close> Inr show ?thesis
          by (auto simp: search_probe.simps word_range_Cons)
      next
        case False
        with "1.hyps" [OF \<open>j < f_eps\<close> Inr] \<open>j < f_eps\<close> Inr show ?thesis
          by (simp add: search_probe.simps [of eh 0 i f_eps j] word_range_Cons)
      qed
    qed
  qed
qed

lemma search_loop_zero:
  "search_loop eh 0 i =
     (case first_empty_slot eh
             (concat (map (search_probes_in eh 0) (word_range i (num_arrays eh)))) of
        Inl e \<Rightarrow> Inl e
      | Inr (Some pos) \<Rightarrow> Inr (sint pos)
      | Inr None \<Rightarrow> Inr (- 1))"
proof (induction eh "0 :: size_t" i rule: search_loop.induct)
  case (1 eh i)
  show ?case
  proof (cases "i < num_arrays eh")
    case False
    then show ?thesis by (simp add: search_loop.simps word_range_Nil)
  next
    case True
    let ?r = "search_probe eh 0 i (compute_f (epsilon (arrays eh i)) (delta eh)) 0"
    let ?q = "first_empty_slot eh (search_probes_in eh 0 i)"
    have r: "?r = ?q"
      by (simp add: search_probe_zero search_probes_in_def)
    have step: "search_loop eh 0 i =
        (case ?q of
           Inl e \<Rightarrow> Inl e
         | Inr (Some pos) \<Rightarrow> Inr (sint pos)
         | Inr None \<Rightarrow> search_loop eh 0 (i + 1))"
      using True by (simp add: search_loop.simps [of eh 0 i] r)
    have rest: "first_empty_slot eh
          (concat (map (search_probes_in eh 0) (word_range i (num_arrays eh)))) =
        (case ?q of
           Inl e \<Rightarrow> Inl e
         | Inr (Some pos) \<Rightarrow> Inr (Some pos)
         | Inr None \<Rightarrow> first_empty_slot eh
             (concat (map (search_probes_in eh 0) (word_range (i + 1) (num_arrays eh)))))"
      using True by (simp add: word_range_Cons first_empty_slot_append)
    show ?thesis
    proof (cases ?q)
      case (Inl e)
      then show ?thesis by (simp add: step rest)
    next
      case (Inr found)
      show ?thesis
      proof (cases found)
        case None
        from r Inr have "?r = Inr found" by simp
        from "1.hyps" [OF True this None] Inr None show ?thesis
          by (simp add: step rest)
      next
        case (Some pos)
        with Inr show ?thesis by (simp add: step rest)
      qed
    qed
  qed
qed

text \<open>
  C10. A search for the key 0 returns the position of the first probe, in the order of the
  search and within the budgets, that finds an empty slot, and \<open>-1\<close> only if no probe
  finds one: the comparison of the slot with the key comes first, and for the key 0 it
  holds of an empty slot, so the test that would end the probing of the sub-array is never
  reached.
\<close>

theorem search_zero_first_empty:
  "elastic_hash_search eh 0 =
     (case first_empty_slot eh (search_probes eh 0) of
        Inl e \<Rightarrow> Inl e
      | Inr (Some pos) \<Rightarrow> Inr (sint pos)
      | Inr None \<Rightarrow> Inr (- 1))"
  by (simp add: elastic_hash_search_def search_loop_zero search_probes_def)


text \<open>What the result says: the slot returned is empty and in the table, so its position
  is not \<open>-1\<close>; and without a result no probed slot is empty.\<close>

lemma first_empty_slot_Some:
  "first_empty_slot eh ps = Inr (Some pos) \<Longrightarrow> Inr pos \<in> set ps \<and> pos < n eh \<and> table eh pos = 0"
  by (induction eh ps rule: first_empty_slot.induct) (auto split: if_splits)

lemma first_empty_slot_None:
  "first_empty_slot eh ps = Inr None \<Longrightarrow> Inr pos \<in> set ps \<Longrightarrow> table eh pos \<noteq> 0"
  by (induction eh ps rule: first_empty_slot.induct) (auto split: if_splits)

lemma position_not_minus_one:
  fixes pos :: size_t
  assumes "pos < bound"
  shows "sint pos \<noteq> - 1"
proof
  assume "sint pos = - 1"
  then have "sint pos = sint (- 1 :: size_t)" by simp
  then have "pos = - 1" by (rule signed_word_eqI)
  with assms show False by simp
qed

lemma compute_f_zero_half: "compute_f (Finite 0) (1 / 2) = 4"
  by (simp add: compute_f_def size_t_of_double_def)

lemma search_zero_run:
  "\<exists>eh0. elastic_hash_init
       (used_heap \<lparr>start = 0, size_sub = 1, filled_slots = 0, epsilon = Finite 0\<rparr>) 4 (1 / 2) = Inr eh0 \<and>
     elastic_hash_search eh0 0 = Inr 0"
  by (simp add: run_defs sub_arrays_of_def init_sub_arrays.simps num_arrays_of_half beta_of_half
      compute_f_one compute_f_zero_half)

theorem search_zero_first_empty_witness:
  "\<exists>eh0. elastic_hash_init
       (used_heap \<lparr>start = 0, size_sub = 1, filled_slots = 0, epsilon = Finite 0\<rparr>) 4 (1 / 2) = Inr eh0 \<and>
     elastic_hash_search eh0 0 = Inr 0 \<and>
     (case first_empty_slot eh0 (search_probes eh0 0) of
        Inl e \<Rightarrow> Inl e
      | Inr (Some pos) \<Rightarrow> Inr (sint pos)
      | Inr None \<Rightarrow> Inr (- 1)) = Inr 0"
proof -
  from search_zero_run obtain eh0 where run:
    "elastic_hash_init
       (used_heap \<lparr>start = 0, size_sub = 1, filled_slots = 0, epsilon = Finite 0\<rparr>) 4 (1 / 2) = Inr eh0"
    "elastic_hash_search eh0 0 = Inr 0"
    by blast
  from run(2) search_zero_first_empty [of eh0] have
    "(case first_empty_slot eh0 (search_probes eh0 0) of
        Inl e \<Rightarrow> Inl e
      | Inr (Some pos) \<Rightarrow> Inr (sint pos)
      | Inr None \<Rightarrow> Inr (- 1)) = Inr 0"
    by simp
  with run show ?thesis by blast
qed

end
